theory Spec2Isabelle
  imports Main "HOL-Library.Word"
begin

section \<open>The memory cache of \<^verbatim>\<open>memory_cache.go\<close>\<close>

text \<open>
  Integers are the machine integers of the source: \<^verbatim>\<open>int64\<close> for Unix nanosecond
  stamps and for \<^verbatim>\<open>time.Duration\<close>, \<^verbatim>\<open>int8\<close> for the key length. Comparisons of the
  source are signed, so they are \<open><s\<close> and \<open>\<le>s\<close> here; \<open>+\<close> wraps around, as
  \<^verbatim>\<open>time.Now().Add(d).UnixNano()\<close> does on a 64-bit result.

  Every reading of the clock (\<^verbatim>\<open>time.Now().UnixNano()\<close>) is a parameter \<open>now\<close> of the
  function that takes the reading. The locks are left out: each function below is one
  critical section, and the model is sequential.
\<close>

type_synonym int64 = "64 word"
type_synonym int8 = "8 word"

definition defultInterval :: int64 where
  "defultInterval = 1000000000 * 1"

definition defultExpiration :: int64 where
  "defultExpiration = 0"

definition defultKeyLen :: int8 where
  "defultKeyLen = 3"

text \<open>
  A value of type \<^verbatim>\<open>interface{}\<close>: the nil interface, a string, or a value of another
  dynamic type. Only the type assertion \<^verbatim>\<open>v.(string)\<close> looks at the dynamic type.
\<close>

datatype interface = NilV | StringV string | IntV int | BoolV bool

text \<open>An error made by \<^verbatim>\<open>errors.New\<close>, with its message.\<close>

datatype error = New string

text \<open>A run-time panic: slicing a string with a negative bound.\<close>

datatype panic = SliceBoundsOutOfRange

record item =
  object :: interface
  expiration :: int64

text \<open>The \<^verbatim>\<open>stop\<close> channel of the janitor is made and never used; it is left out.\<close>

record janitor =
  interval :: int64

record Cache =
  items :: "string \<rightharpoonup> item"
  janitor :: janitor
  expiration :: int64

record CacheGroup =
  caches :: "string \<rightharpoonup> Cache"
  expiration :: int64
  keyLen :: int8

subsection \<open>The janitor\<close>

text \<open>
  The \<^verbatim>\<open>for k, v := range c.items\<close> loop of \<^verbatim>\<open>janitor.run\<close>. Go visits the keys of a
  map in an order it does not specify, so the order is the list \<open>ks\<close>; a key that is no
  longer in the map when the loop reaches it is not produced.
\<close>

primrec range_items :: "string list \<Rightarrow> int64 \<Rightarrow> (string \<rightharpoonup> item) \<Rightarrow> (string \<rightharpoonup> item)" where
  "range_items [] now m = m"
| "range_items (k # ks) now m =
     (case m k of
        None \<Rightarrow> range_items ks now m
      | Some v \<Rightarrow>
          if 0 <s item.expiration v \<and> item.expiration v <s now
          then range_items ks now (m(k := None))
          else range_items ks now m)"

text \<open>
  One turn of the \<^verbatim>\<open>for\<close> loop of \<^verbatim>\<open>janitor.run\<close>: \<open>now\<close> is read at the top of the
  turn, then the turn blocks until the ticker fires, at the clock reading \<open>tick\<close>, and
  sweeps. The source does not read the clock again after the tick, so \<open>tick\<close> does not
  occur on the right-hand side.
\<close>

record turn =
  now_read :: int64
  tick :: int64
  order :: "string list"

definition sweep :: "Cache \<Rightarrow> turn \<Rightarrow> Cache" where
  "sweep c t = c\<lparr>items := range_items (order t) (now_read t) (items c)\<rparr>"

text \<open>
  \<^verbatim>\<open>janitor.run\<close> on a cache that nothing else writes to. The loop of the source has no
  exit; the list holds the turns that have been taken so far.
\<close>

primrec run :: "Cache \<Rightarrow> turn list \<Rightarrow> Cache" where
  "run c [] = c"
| "run c (t # ts) = run (sweep c t) ts"

definition newJanitor :: "int64 \<Rightarrow> janitor" where
  "newJanitor d = \<lparr>interval = (if d \<le>s 0 then defultInterval else d)\<rparr>"

subsection \<open>The cache of one shard\<close>

text \<open>
  \<^verbatim>\<open>newCache\<close> starts the janitor's goroutine; its turns are events of their own (see
  \<open>sweep\<close>). The parameters \<^verbatim>\<open>expiration\<close> and \<^verbatim>\<open>interval\<close> of the source are
  \<open>duration\<close> and \<open>ival\<close> here and below, since the record fields have those names.
  The clock is read only when \<open>duration\<close> is positive.
\<close>

definition newCache :: "int64 \<Rightarrow> int64 \<Rightarrow> int64 \<Rightarrow> Cache" where
  "newCache duration ival now =
     \<lparr>items = Map.empty,
      janitor = newJanitor ival,
      expiration = (if duration \<le>s 0 then 0 else now + duration)\<rparr>"

text \<open>The receiver is a pointer; the cache after the call is the second component.\<close>

definition getValue :: "Cache \<Rightarrow> string \<Rightarrow> int64 \<Rightarrow> (interface \<times> bool) \<times> Cache" where
  "getValue this key now =
     (case items this key of
        Some v \<Rightarrow>
          if 0 <s item.expiration v \<and> item.expiration v <s now
          then ((NilV, False), this)
          else ((object v, True), this)
      | None \<Rightarrow> ((NilV, False), this))"

definition setValue :: "Cache \<Rightarrow> string \<Rightarrow> interface \<Rightarrow> int64 \<Rightarrow> int64 \<Rightarrow> Cache" where
  "setValue this key val duration now =
     (let v = \<lparr>object = val,
               expiration = (if 0 <s duration then now + duration else 0)\<rparr>
      in this\<lparr>items := (items this)(key \<mapsto> v)\<rparr>)"

subsection \<open>The group of caches\<close>

definition NewCacheGroup :: "int64 \<Rightarrow> int64 \<Rightarrow> CacheGroup" where
  "NewCacheGroup duration now =
     \<lparr>caches = Map.empty,
      expiration = now + duration,
      keyLen = defultKeyLen\<rparr>"

text \<open>
  \<^verbatim>\<open>len(key)\<close> counts the bytes of the key and \<^verbatim>\<open>key[:n]\<close> keeps its first \<open>n\<close> bytes; a
  \<open>string\<close> is the list of these bytes. When the length of the key is above a negative
  \<^verbatim>\<open>keyLen\<close>, the slice panics.
\<close>

definition getSplitKey :: "CacheGroup \<Rightarrow> string \<Rightarrow> panic + string" where
  "getSplitKey this key =
     (if int (length key) \<le> sint (keyLen this) then Inr key
      else if sint (keyLen this) < 0 then Inl SliceBoundsOutOfRange
      else Inr (take (nat (sint (keyLen this))) key))"

definition addCache :: "CacheGroup \<Rightarrow> string \<Rightarrow> int64 \<Rightarrow> int64 \<Rightarrow> int64 \<Rightarrow> panic + CacheGroup" where
  "addCache this key duration ival now =
     (case getSplitKey this key of
        Inl p \<Rightarrow> Inl p
      | Inr k \<Rightarrow>
          (case caches this k of
             Some _ \<Rightarrow> Inr this
           | None \<Rightarrow> Inr (this\<lparr>caches := (caches this)(k \<mapsto> newCache duration ival now)\<rparr>)))"

text \<open>
  \<^verbatim>\<open>addDefultCache\<close> and \<^verbatim>\<open>getCache\<close> return the pointer that the map holds under the
  split key \<open>k\<close>. The model returns the cache together with \<open>k\<close>, so that a write
  through the pointer can be put back where the pointer is held (\<open>through\<close>). Each
  pointer is made by \<^verbatim>\<open>newCache\<close> and stored under one split key only. The store
  \<^verbatim>\<open>this.caches[key] = c\<close> of \<^verbatim>\<open>addDefultCache\<close> and of \<^verbatim>\<open>addCache\<close> is the only place where
  the directory gets an entry.
\<close>

definition addDefultCache :: "CacheGroup \<Rightarrow> string \<Rightarrow> int64 \<Rightarrow> panic + ((string \<times> Cache) \<times> CacheGroup)" where
  "addDefultCache this key now =
     (case getSplitKey this key of
        Inl p \<Rightarrow> Inl p
      | Inr k \<Rightarrow>
          (case caches this k of
             Some v \<Rightarrow> Inr ((k, v), this)
           | None \<Rightarrow>
               (let c = newCache defultExpiration defultInterval now
                in Inr ((k, c), this\<lparr>caches := (caches this)(k \<mapsto> c)\<rparr>))))"

text \<open>\<^verbatim>\<open>getCache\<close> returns \<^verbatim>\<open>(v, ok)\<close>: \<open>None\<close> is \<^verbatim>\<open>(nil, false)\<close>.\<close>

definition getCache :: "CacheGroup \<Rightarrow> string \<Rightarrow> panic + (string \<times> Cache) option" where
  "getCache this key =
     (case getSplitKey this key of
        Inl p \<Rightarrow> Inl p
      | Inr k \<Rightarrow>
          (case caches this k of
             Some v \<Rightarrow> Inr (Some (k, v))
           | None \<Rightarrow> Inr None))"

text \<open>
  The group after a call that changed, to \<open>c\<close>, the cache that the pointer held under \<open>k\<close>
  points to. The directory holds pointers: the change is seen in the group where the
  directory holds the pointer under \<open>k\<close>; \<open>through\<close> stores nothing in a directory that
  has no entry for \<open>k\<close>.
\<close>

definition through :: "CacheGroup \<Rightarrow> string \<Rightarrow> Cache \<Rightarrow> CacheGroup" where
  "through this k c =
     (case caches this k of
        None \<Rightarrow> this
      | Some _ \<Rightarrow> this\<lparr>caches := (caches this)(k \<mapsto> c)\<rparr>)"

definition GetValue :: "CacheGroup \<Rightarrow> string \<Rightarrow> int64 \<Rightarrow> panic + ((interface \<times> bool) \<times> CacheGroup)" where
  "GetValue this key now =
     (case getCache this key of
        Inl p \<Rightarrow> Inl p
      | Inr (Some (k, c)) \<Rightarrow>
          (case getValue c key now of (r, c') \<Rightarrow> Inr (r, through this k c'))
      | Inr None \<Rightarrow> Inr ((NilV, False), this))"

definition GetString :: "CacheGroup \<Rightarrow> string \<Rightarrow> int64 \<Rightarrow> panic + ((string \<times> error option) \<times> CacheGroup)" where
  "GetString this key now =
     (case GetValue this key now of
        Inl p \<Rightarrow> Inl p
      | Inr ((v, ok), this') \<Rightarrow>
          if ok then
            (case v of
               StringV sv \<Rightarrow> Inr ((sv, None), this')
             | _ \<Rightarrow> Inr (([], Some (New ''value not is string'')), this'))
          else Inr (([], Some (New ''key not found'')), this'))"

definition SetValue :: "CacheGroup \<Rightarrow> string \<Rightarrow> interface \<Rightarrow> int64 \<Rightarrow> int64 \<Rightarrow> panic + CacheGroup" where
  "SetValue this key val duration now =
     (case getCache this key of
        Inl p \<Rightarrow> Inl p
      | Inr (Some (k, c)) \<Rightarrow> Inr (through this k (setValue c key val duration now))
      | Inr None \<Rightarrow>
          (case addDefultCache this key now of
             Inl p \<Rightarrow> Inl p
           | Inr ((k, c), this') \<Rightarrow> Inr (through this' k (setValue c key val duration now))))"

definition deleteCache :: "CacheGroup \<Rightarrow> string \<Rightarrow> panic + (error option \<times> CacheGroup)" where
  "deleteCache this key =
     (case getSplitKey this key of
        Inl p \<Rightarrow> Inl p
      | Inr k \<Rightarrow>
          (case caches this k of
             None \<Rightarrow> Inr (Some (New ''key not exist''), this)
           | Some _ \<Rightarrow> Inr (None, this\<lparr>caches := (caches this)(k := None)\<rparr>)))"

subsection \<open>Sequences of calls\<close>

text \<open>
  A run of the program is a sequence of calls on one group, each with the clock readings
  it takes, interleaved with turns of the janitors. A janitor belongs to the cache that
  \<^verbatim>\<open>newCache\<close> made it for; \<open>JanitorTurn k t\<close> is a turn of the janitor of the cache
  held under the split key \<open>k\<close> (the janitor of a cache that \<^verbatim>\<open>deleteCache\<close> has dropped
  sweeps a cache that no call reaches any more).
\<close>

datatype call =
    CallAddCache string int64 int64 int64
  | CallGetValue string int64
  | CallGetString string int64
  | CallSetValue string interface int64 int64
  | CallDeleteCache string
  | JanitorTurn string turn

datatype reply =
    Done
  | Value interface bool
  | Str string "error option"
  | Err "error option"

definition step :: "CacheGroup \<Rightarrow> call \<Rightarrow> panic + (reply \<times> CacheGroup)" where
  "step g c =
     (case c of
        CallAddCache key duration ival now \<Rightarrow>
          (case addCache g key duration ival now of
             Inl p \<Rightarrow> Inl p | Inr g' \<Rightarrow> Inr (Done, g'))
      | CallGetValue key now \<Rightarrow>
          (case GetValue g key now of
             Inl p \<Rightarrow> Inl p | Inr ((v, ok), g') \<Rightarrow> Inr (Value v ok, g'))
      | CallGetString key now \<Rightarrow>
          (case GetString g key now of
             Inl p \<Rightarrow> Inl p | Inr ((s, e), g') \<Rightarrow> Inr (Str s e, g'))
      | CallSetValue key val duration now \<Rightarrow>
          (case SetValue g key val duration now of
             Inl p \<Rightarrow> Inl p | Inr g' \<Rightarrow> Inr (Done, g'))
      | CallDeleteCache key \<Rightarrow>
          (case deleteCache g key of
             Inl p \<Rightarrow> Inl p | Inr (e, g') \<Rightarrow> Inr (Err e, g'))
      | JanitorTurn k t \<Rightarrow>
          (case caches g k of
             None \<Rightarrow> Inr (Done, g)
           | Some c \<Rightarrow> Inr (Done, through g k (sweep c t))))"

fun exec :: "CacheGroup \<Rightarrow> call list \<Rightarrow> panic + (reply list \<times> CacheGroup)" where
  "exec g [] = Inr ([], g)"
| "exec g (c # cs) =
     (case step g c of
        Inl p \<Rightarrow> Inl p
      | Inr (r, g') \<Rightarrow>
          (case exec g' cs of
             Inl p \<Rightarrow> Inl p
           | Inr (rs, g'') \<Rightarrow> Inr (r # rs, g'')))"

text \<open>
  \<open>touches g key c\<close>: the call \<open>c\<close> stores under \<open>key\<close>, or deletes the cache that \<open>key\<close>
  is routed to.
\<close>

fun touches :: "CacheGroup \<Rightarrow> string \<Rightarrow> call \<Rightarrow> bool" where
  "touches g key (CallSetValue key' val duration now) = (key' = key)"
| "touches g key (CallDeleteCache key') = (getSplitKey g key' = getSplitKey g key)"
| "touches g key c = False"

text \<open>
  The call without the \<^verbatim>\<open>expiration\<close> argument of \<^verbatim>\<open>addCache\<close>, and the group without the
  \<^verbatim>\<open>expiration\<close> fields of the group and of its caches: two runs that differ in these
  only have the same image.
\<close>

fun erase_call :: "call \<Rightarrow> call" where
  "erase_call (CallAddCache key duration ival now) = CallAddCache key 0 ival now"
| "erase_call c = c"

definition erase_cache :: "Cache \<Rightarrow> Cache" where
  "erase_cache c = c\<lparr>Cache.expiration := 0\<rparr>"

definition erase_group :: "CacheGroup \<Rightarrow> CacheGroup" where
  "erase_group g =
     g\<lparr>caches := (\<lambda>k. map_option erase_cache (caches g k)), CacheGroup.expiration := 0\<rparr>"

text \<open>
  The shard identifier in the words of the specification: the first \<open>n\<close> characters of the
  key, or the whole key when it has no more than \<open>n\<close>. A Go string holds UTF-8: a
  character is a byte that is not a continuation byte (\<open>0x80\<close> to \<open>0xBF\<close>), followed by
  its continuation bytes. This definition is not taken from the source; \<open>getSplitKey\<close>
  is.
\<close>

definition continuation :: "char \<Rightarrow> bool" where
  "continuation c = (128 \<le> (of_char c :: nat) \<and> (of_char c :: nat) < 192)"

fun spec_first_characters :: "nat \<Rightarrow> string \<Rightarrow> string" where
  "spec_first_characters n [] = []"
| "spec_first_characters n (c # cs) =
     (if continuation c then c # spec_first_characters n cs
      else (case n of
              0 \<Rightarrow> []
            | Suc m \<Rightarrow> c # spec_first_characters m cs))"

section \<open>Properties\<close>

subsection \<open>Auxiliary facts\<close>

lemma range_items_apply:
  "range_items ks now m k =
     (if k \<in> set ks then
        (case m k of
           None \<Rightarrow> None
         | Some v \<Rightarrow> if 0 <s item.expiration v \<and> item.expiration v <s now then None else Some v)
      else m k)"
  by (induction ks arbitrary: m) (auto split: option.splits)

lemma sweep_items:
  "items (sweep c t) k =
     (if k \<in> set (order t) then
        (case items c k of
           None \<Rightarrow> None
         | Some v \<Rightarrow>
             if 0 <s item.expiration v \<and> item.expiration v <s now_read t then None else Some v)
      else items c k)"
  by (simp add: sweep_def range_items_apply)

lemma sint_deadline:
  fixes now ttl now' :: int64
  assumes "0 \<le>s now" and "0 <s ttl"
  shows "(0 <s now + ttl \<and> now + ttl <s now') \<longleftrightarrow> sint now + sint ttl < sint now'"
proof -
  have a: "0 \<le> sint now" using assms(1) by (simp add: word_sle_eq)
  have b: "0 < sint ttl" using assms(2) by (simp add: word_sless_alt)
  have ub: "sint now < 2 ^ 63" "sint ttl < 2 ^ 63" "sint now' < 2 ^ 63"
    using sint_lt [of now] sint_lt [of ttl] sint_lt [of now'] by simp_all
  have s: "sint (now + ttl) = signed_take_bit 63 (sint now + sint ttl)"
    by (simp add: sint_word_ariths)
  show ?thesis
  proof (cases "sint now + sint ttl < 2 ^ 63")
    case True
    then have "sint (now + ttl) = sint now + sint ttl"
      using a b s by (simp add: signed_take_bit_int_eq_self)
    then show ?thesis using a b by (simp add: word_sless_alt)
  next
    case False
    then have "signed_take_bit 63 (sint now + sint ttl) \<le> sint now + sint ttl - 2 ^ Suc 63"
      by (intro signed_take_bit_int_less_eq) simp
    then have "sint (now + ttl) \<le> sint now + sint ttl - 2 ^ Suc 63"
      by (simp only: s)
    moreover have "sint now + sint ttl - 2 ^ Suc 63 < 0" using ub by simp
    ultimately have "sint (now + ttl) < 0" by linarith
    then show ?thesis using False ub by (simp add: word_sless_alt)
  qed
qed

lemma through_same: "caches g k = Some c \<Longrightarrow> through g k c = g"
  by (simp add: through_def map_upd_triv)

lemma through_held:
  "caches g k = Some c' \<Longrightarrow> through g k c = g\<lparr>caches := (caches g)(k \<mapsto> c)\<rparr>"
  by (simp add: through_def)

lemma through_keyLen: "keyLen (through g k c) = keyLen g"
  by (simp add: through_def split: option.splits)

lemma getValue_snd: "snd (getValue c key now) = c"
  by (simp add: getValue_def split: option.splits)

lemma getValue_pair: "getValue c key now = (fst (getValue c key now), c)"
  by (simp add: getValue_def split: option.splits)

lemma GetValue_split:
  "GetValue g key now =
     (case getSplitKey g key of
        Inl p \<Rightarrow> Inl p
      | Inr k \<Rightarrow>
          (case caches g k of
             None \<Rightarrow> Inr ((NilV, False), g)
           | Some c \<Rightarrow> Inr (fst (getValue c key now), g)))"
proof (cases "getSplitKey g key")
  case (Inl p)
  then show ?thesis by (simp add: GetValue_def getCache_def)
next
  case (Inr k)
  show ?thesis
  proof (cases "caches g k")
    case None
    with Inr show ?thesis by (simp add: GetValue_def getCache_def)
  next
    case (Some c)
    have "getValue c key now = (fst (getValue c key now), c)" by (rule getValue_pair)
    then have "(case getValue c key now of (r, c') \<Rightarrow> Inr (r, through g k c')) =
        (Inr (fst (getValue c key now), through g k c) :: panic + ((interface \<times> bool) \<times> CacheGroup))"
      by (metis case_prod_conv)
    with Inr Some show ?thesis
      by (simp add: GetValue_def getCache_def through_same)
  qed
qed

lemma GetValue_state: "GetValue g key now = Inr (r, g') \<Longrightarrow> g' = g"
  by (auto simp: GetValue_split split: sum.splits option.splits)

lemma GetString_state: "GetString g key now = Inr (r, g') \<Longrightarrow> g' = g"
  by (auto simp: GetString_def split: sum.splits prod.splits if_splits interface.splits
      dest: GetValue_state)

lemma getSplitKey_take:
  "0 \<le>s keyLen g \<Longrightarrow> getSplitKey g key = Inr (take (nat (sint (keyLen g))) key)"
  by (simp add: getSplitKey_def word_sle_eq)

lemma getSplitKey_cong: "keyLen g' = keyLen g \<Longrightarrow> getSplitKey g' key = getSplitKey g key"
  by (simp add: getSplitKey_def)

lemma getCache_split:
  "getSplitKey g key = Inr k \<Longrightarrow> getCache g key = Inr (map_option (Pair k) (caches g k))"
  by (simp add: getCache_def split: option.splits)

lemma addCache_split:
  "getSplitKey g key = Inr k \<Longrightarrow>
   addCache g key d i now =
     Inr (if caches g k = None then g\<lparr>caches := (caches g)(k \<mapsto> newCache d i now)\<rparr> else g)"
  by (simp add: addCache_def split: option.splits)

lemma SetValue_split:
  "getSplitKey g key = Inr k \<Longrightarrow>
   SetValue g key v d now =
     Inr (g\<lparr>caches := (caches g)(k \<mapsto>
       setValue (case caches g k of
                   None \<Rightarrow> newCache defultExpiration defultInterval now
                 | Some c \<Rightarrow> c) key v d now)\<rparr>)"
  by (simp add: SetValue_def getCache_def addDefultCache_def through_def Let_def
      split: option.splits)

lemma deleteCache_split:
  "getSplitKey g key = Inr k \<Longrightarrow>
   deleteCache g key =
     Inr (if caches g k = None then (Some (New ''key not exist''), g)
          else (None, g\<lparr>caches := (caches g)(k := None)\<rparr>))"
  by (simp add: deleteCache_def split: option.splits)

lemma GetString_split:
  "GetString g key now =
     (case GetValue g key now of
        Inl p \<Rightarrow> Inl p
      | Inr ((v, ok), h) \<Rightarrow>
          Inr ((if ok then (case v of StringV sv \<Rightarrow> (sv, None)
                            | _ \<Rightarrow> ([], Some (New ''value not is string'')))
                else ([], Some (New ''key not found''))), h))"
  by (simp add: GetString_def split: sum.splits prod.splits interface.splits)

lemma run_keeps:
  "items c k = Some it \<Longrightarrow>
   list_all (\<lambda>t. \<not> (0 <s item.expiration it \<and> item.expiration it <s now_read t)) ts \<Longrightarrow>
   items (run c ts) k = Some it"
proof (induction ts arbitrary: c)
  case Nil
  then show ?case by simp
next
  case (Cons t ts)
  then have "items (sweep c t) k = Some it" by (auto simp: sweep_items)
  with Cons show ?case by simp
qed

subsection \<open>Entries with a time to live\<close>

text \<open>
  Claim C1. Let the clock read \<open>now\<close>, at or after the Unix epoch, when \<^verbatim>\<open>setValue\<close> stores
  \<open>v\<close> under \<open>k\<close> with a positive time to live \<open>ttl\<close>. The entry is stamped \<open>now + ttl\<close>,
  and \<^verbatim>\<open>getValue\<close> at a clock reading \<open>now'\<close> returns \<open>(v, true)\<close> as long as \<open>now'\<close> is not
  past set-time plus \<open>ttl\<close>, and \<open>(nil, false)\<close> once it is. The sum is the one of the
  integers: when it does not fit 64 bits the stamp wraps to a negative number, the entry
  has no expiration, and no reading of the clock is past the sum. Turns of the janitor
  between the two calls, with readings that are not past the sum, do not change this. For
  a key that the map does not hold, \<^verbatim>\<open>getValue\<close> returns \<open>(nil, false)\<close>.
\<close>

theorem setValue_getValue_ttl:
  "(0 \<le>s now \<and> 0 <s ttl \<longrightarrow>
      items (setValue c k v ttl now) k = Some \<lparr>object = v, expiration = now + ttl\<rparr> \<and>
      fst (getValue (setValue c k v ttl now) k now') =
        (if sint now' \<le> sint now + sint ttl then (v, True) else (NilV, False)) \<and>
      (list_all (\<lambda>t. sint (now_read t) \<le> sint now + sint ttl) ts \<longrightarrow>
         fst (getValue (run (setValue c k v ttl now) ts) k now') =
           (if sint now' \<le> sint now + sint ttl then (v, True) else (NilV, False)))) \<and>
   (items c k' = None \<longrightarrow> fst (getValue c k' now') = (NilV, False))"
proof (intro conjI impI)
  assume h: "0 \<le>s now \<and> 0 <s ttl"
  let ?it = "\<lparr>object = v, expiration = now + ttl\<rparr>"
  show it: "items (setValue c k v ttl now) k = Some ?it"
    using h by (simp add: setValue_def)
  have d: "(0 <s now + ttl \<and> now + ttl <s x) \<longleftrightarrow> sint now + sint ttl < sint x" for x
    using h by (intro sint_deadline) simp_all
  have get: "fst (getValue c' k now') =
      (if sint now' \<le> sint now + sint ttl then (v, True) else (NilV, False))"
    if "items c' k = Some ?it" for c'
    using that d [of now'] by (auto simp: getValue_def)
  show "fst (getValue (setValue c k v ttl now) k now') =
      (if sint now' \<le> sint now + sint ttl then (v, True) else (NilV, False))"
    using it by (rule get)
  assume "list_all (\<lambda>t. sint (now_read t) \<le> sint now + sint ttl) ts"
  then have "list_all (\<lambda>t. \<not> (0 <s item.expiration ?it \<and> item.expiration ?it <s now_read t)) ts"
    by (simp add: d list_all_iff not_less)
  with it have "items (run (setValue c k v ttl now) ts) k = Some ?it"
    by (rule run_keeps)
  then show "fst (getValue (run (setValue c k v ttl now) ts) k now') =
      (if sint now' \<le> sint now + sint ttl then (v, True) else (NilV, False))"
    by (rule get)
next
  assume "items c k' = None"
  then show "fst (getValue c k' now') = (NilV, False)"
    by (simp add: getValue_def)
qed

theorem setValue_getValue_ttl_witness:
  "(let c = setValue (newCache 0 0 0) ''k'' (IntV 3) 5 10;
        ts = [\<lparr>now_read = 11, tick = 12, order = [''k'']\<rparr>,
              \<lparr>now_read = 13, tick = 14, order = [''k'']\<rparr>]
    in 0 \<le>s (10 :: int64) \<and> 0 <s (5 :: int64) \<and>
       fst (getValue c ''k'' 15) = (IntV 3, True) \<and>
       fst (getValue c ''k'' 16) = (NilV, False) \<and>
       list_all (\<lambda>t. sint (now_read t) \<le> sint (10 :: int64) + sint (5 :: int64)) ts \<and>
       fst (getValue (run c ts) ''k'' 15) = (IntV 3, True) \<and>
       items (newCache 0 0 0) ''z'' = None \<and>
       fst (getValue (newCache 0 0 0) ''z'' 16) = (NilV, False))"
proof -
  define ts where "ts = [\<lparr>now_read = 11 :: int64, tick = 12 :: int64, order = [''k'']\<rparr>,
              \<lparr>now_read = 13, tick = 14, order = [''k'']\<rparr>]"
  have h: "0 \<le>s (10 :: int64) \<and> 0 <s (5 :: int64)"
    by (simp add: word_sle_eq word_sless_alt)
  have z: "items (newCache 0 0 0) ''z'' = None" by (simp add: newCache_def)
  have l: "list_all (\<lambda>t. sint (now_read t) \<le> sint (10 :: int64) + sint (5 :: int64)) ts"
    by (simp add: ts_def)
  show ?thesis
    unfolding Let_def ts_def [symmetric]
    using h z l
      setValue_getValue_ttl [of 10 5 "newCache 0 0 0" "''k''" "IntV 3" 15 ts "''z''"]
      setValue_getValue_ttl [of 10 5 "newCache 0 0 0" "''k''" "IntV 3" 16 ts "''z''"]
    by simp
qed

subsection \<open>The sweep of the janitor\<close>

text \<open>
  Claim C2. The sweep compares the stamps with the clock reading that \<^verbatim>\<open>janitor.run\<close> took
  at the top of the turn, before it waited for the tick, not with the time at which the
  sweep runs. A cache made at clock reading 1000 has the default interval of one second;
  an entry stored at 1000 with a time to live of 500 is stamped 1500. The first turn
  reads 1000, waits for the tick at 1000001000 and sweeps: the entry, expired since 1500,
  stays in the map. The second turn reads 1000001000 and removes it at its tick,
  2000001000, more than one interval after the expiry.
\<close>

theorem janitor_sweeps_with_reading_before_tick:
  "let c = setValue (newCache 0 0 1000) ''k'' (IntV 1) 500 1000;
       t1 = \<lparr>now_read = 1000, tick = 1000001000, order = [''k'']\<rparr>;
       t2 = \<lparr>now_read = 1000001000, tick = 2000001000, order = [''k'']\<rparr>
   in interval (janitor c) = 1000000000 \<and>
      items c ''k'' = Some \<lparr>object = IntV 1, expiration = 1500\<rparr> \<and>
      (0 :: int64) <s 1500 \<and> 1500 <s tick t1 \<and>
      items (sweep c t1) ''k'' = Some \<lparr>object = IntV 1, expiration = 1500\<rparr> \<and>
      items (run c [t1, t2]) ''k'' = None \<and>
      sint (tick t2) - 1500 > sint (interval (janitor c))"
  by (simp add: Let_def setValue_def newCache_def newJanitor_def defultInterval_def
      sweep_def word_sle_eq word_sless_alt)

subsection \<open>Reading does not write\<close>

text \<open>
  Claim C4. \<^verbatim>\<open>getValue\<close> leaves the cache as it was. When it finds an entry whose
  expiration is set and in the past, it returns \<open>(nil, false)\<close> and the entry is still in
  the map afterwards; a turn of the janitor that reaches the key with a reading past the
  stamp is what removes it. \<^verbatim>\<open>GetValue\<close> and \<^verbatim>\<open>GetString\<close> leave the group as it was.
\<close>

theorem getValue_leaves_state:
  "snd (getValue c key now) = c \<and>
   (items c key = Some it \<and> 0 <s item.expiration it \<and> item.expiration it <s now \<longrightarrow>
      fst (getValue c key now) = (NilV, False) \<and>
      items (snd (getValue c key now)) key = Some it) \<and>
   (items c key = Some it \<and> 0 <s item.expiration it \<and> item.expiration it <s now_read t \<and>
    key \<in> set (order t) \<longrightarrow>
      items (sweep c t) key = None) \<and>
   (GetValue g key now = Inr (r, g') \<longrightarrow> g' = g) \<and>
   (GetString g key now = Inr (s, g'') \<longrightarrow> g'' = g)"
proof (intro conjI impI)
  show "snd (getValue c key now) = c" by (rule getValue_snd)
next
  assume "items c key = Some it \<and> 0 <s item.expiration it \<and> item.expiration it <s now"
  then show "fst (getValue c key now) = (NilV, False)" by (simp add: getValue_def)
next
  assume "items c key = Some it \<and> 0 <s item.expiration it \<and> item.expiration it <s now"
  then show "items (snd (getValue c key now)) key = Some it" by (simp add: getValue_snd)
next
  assume "items c key = Some it \<and> 0 <s item.expiration it \<and>
    item.expiration it <s now_read t \<and> key \<in> set (order t)"
  then show "items (sweep c t) key = None" by (simp add: sweep_items)
next
  assume "GetValue g key now = Inr (r, g')"
  then show "g' = g" by (rule GetValue_state)
next
  assume "GetString g key now = Inr (s, g'')"
  then show "g'' = g" by (rule GetString_state)
qed

theorem getValue_leaves_state_witness:
  "(let it = \<lparr>object = IntV 3, expiration = 15\<rparr>;
        c = \<lparr>items = [''k'' \<mapsto> it], janitor = \<lparr>interval = 1000000000\<rparr>, expiration = 0\<rparr>;
        G = \<lparr>caches = [''k'' \<mapsto> c], expiration = 0, keyLen = 3\<rparr>
    in items c ''k'' = Some it \<and> 0 <s item.expiration it \<and> item.expiration it <s 20 \<and>
       fst (getValue c ''k'' 20) = (NilV, False) \<and>
       items (snd (getValue c ''k'' 20)) ''k'' = Some it \<and>
       items (sweep c \<lparr>now_read = 20, tick = 30, order = [''k'']\<rparr>) ''k'' = None \<and>
       GetValue G ''k'' 20 = Inr ((NilV, False), G) \<and>
       GetString G ''k'' 20 = Inr (([], Some (New ''key not found'')), G))"
proof -
  define it where "it = \<lparr>object = IntV 3, expiration = 15 :: int64\<rparr>"
  define c where
    "c = \<lparr>items = [''k'' \<mapsto> it], janitor = \<lparr>interval = 1000000000\<rparr>, expiration = 0 :: int64\<rparr>"
  define G where "G = \<lparr>caches = [''k'' \<mapsto> c], expiration = 0 :: int64, keyLen = 3 :: int8\<rparr>"
  define t where "t = \<lparr>now_read = 20, tick = 30, order = [''k'']\<rparr>"
  have h: "items c ''k'' = Some it \<and> 0 <s item.expiration it \<and> item.expiration it <s 20"
    by (simp add: c_def it_def word_sless_alt)
  have m: "items c ''k'' = Some it \<and> 0 <s item.expiration it \<and>
      item.expiration it <s now_read t \<and> ''k'' \<in> set (order t)"
    by (simp add: c_def it_def t_def word_sless_alt)
  have gv: "GetValue G ''k'' 20 = Inr ((NilV, False), through G ''k'' c)"
    by (simp add: GetValue_def getCache_def getSplitKey_def getValue_def G_def)
      (simp add: c_def it_def word_sless_alt)
  note inst = getValue_leaves_state [of c "''k''" 20 it t G "(NilV, False)" "through G ''k'' c"
      "([], Some (New ''key not found''))" "through G ''k'' c"]
  note i1 = inst [THEN conjunct2, THEN conjunct1, THEN mp, OF h]
  note i2 = inst [THEN conjunct2, THEN conjunct2, THEN conjunct1, THEN mp, OF m]
  note i3 = inst [THEN conjunct2, THEN conjunct2, THEN conjunct2, THEN conjunct1, THEN mp, OF gv]
  have gs_raw: "GetString G ''k'' 20 =
      Inr (([], Some (New ''key not found'')), through G ''k'' c)"
    using gv by (simp add: GetString_def)
  note i4 = inst [THEN conjunct2, THEN conjunct2, THEN conjunct2, THEN conjunct2, THEN mp,
      OF gs_raw]
  have gv': "GetValue G ''k'' 20 = Inr ((NilV, False), G)"
    using gv by (simp only: i3)
  have gs: "GetString G ''k'' 20 = Inr (([], Some (New ''key not found'')), G)"
    using gs_raw by (simp only: i4)
  have 1: "fst (getValue c ''k'' 20) = (NilV, False)"
    "items (snd (getValue c ''k'' 20)) ''k'' = Some it"
    using i1 by simp_all
  have 2: "items (sweep c t) ''k'' = None" by (rule i2)
  from h 1 2 gv' gs show ?thesis
    unfolding Let_def it_def [symmetric] c_def [symmetric] G_def [symmetric] t_def [symmetric]
    by (intro conjI) (elim conjE, assumption)+
qed

subsection \<open>The instant of expiry\<close>

text \<open>
  Claim C10. For an entry whose expiration is set: at the clock reading equal to its stamp
  \<^verbatim>\<open>getValue\<close> still returns the value with \<open>true\<close>, and a turn of the janitor whose tick
  is at that instant keeps it (the turn read the clock before the tick). \<^verbatim>\<open>getValue\<close>
  reports \<open>false\<close> exactly at the readings that are greater than the stamp, and a turn of
  the janitor removes the entry exactly when it reaches the key with a reading greater
  than the stamp; the tick of such a turn is then greater than the stamp as well.
\<close>

theorem expiry_is_strict:
  "items c key = Some it \<and> 0 <s item.expiration it \<longrightarrow>
     fst (getValue c key (item.expiration it)) = (object it, True) \<and>
     (now_read t \<le>s tick t \<and> tick t = item.expiration it \<longrightarrow>
        items (sweep c t) key = Some it) \<and>
     (snd (fst (getValue c key now)) \<longleftrightarrow> \<not> item.expiration it <s now) \<and>
     (items (sweep c u) key = None \<longleftrightarrow>
        key \<in> set (order u) \<and> item.expiration it <s now_read u) \<and>
     (items (sweep c u) key = None \<and> now_read u \<le>s tick u \<longrightarrow>
        item.expiration it <s tick u)"
proof (intro impI conjI)
  assume h: "items c key = Some it \<and> 0 <s item.expiration it"
  show "fst (getValue c key (item.expiration it)) = (object it, True)"
    using h by (simp add: getValue_def)
  show "snd (fst (getValue c key now)) \<longleftrightarrow> \<not> item.expiration it <s now"
    using h by (simp add: getValue_def)
  show rm: "items (sweep c u) key = None \<longleftrightarrow>
      key \<in> set (order u) \<and> item.expiration it <s now_read u"
    using h by (simp add: sweep_items)
  {
    assume "now_read t \<le>s tick t \<and> tick t = item.expiration it"
    then have "\<not> item.expiration it <s now_read t"
      by (auto simp: word_sle_eq word_sless_alt)
    then show "items (sweep c t) key = Some it"
      using h by (simp add: sweep_items)
  }
  {
    assume "items (sweep c u) key = None \<and> now_read u \<le>s tick u"
    then have "item.expiration it <s now_read u" "now_read u \<le>s tick u"
      using rm by simp_all
    then show "item.expiration it <s tick u"
      by (simp add: word_sle_eq word_sless_alt)
  }
qed

theorem expiry_is_strict_witness:
  "(let c = setValue (newCache 0 0 0) ''k'' (IntV 3) 5 10;
        it = \<lparr>object = IntV 3, expiration = 15\<rparr>;
        t = \<lparr>now_read = 14, tick = 15, order = [''k'']\<rparr>;
        u = \<lparr>now_read = 16, tick = 17, order = [''k'']\<rparr>
    in items c ''k'' = Some it \<and> 0 <s item.expiration it \<and>
       fst (getValue c ''k'' 15) = (IntV 3, True) \<and>
       now_read t \<le>s tick t \<and> tick t = item.expiration it \<and>
       items (sweep c t) ''k'' = Some it \<and>
       \<not> snd (fst (getValue c ''k'' 16)) \<and>
       items (sweep c u) ''k'' = None \<and> now_read u \<le>s tick u \<and>
       item.expiration it <s tick u)"
proof -
  let ?c = "setValue (newCache 0 0 0) ''k'' (IntV 3) 5 10"
  let ?it = "\<lparr>object = IntV 3, expiration = 15 :: int64\<rparr>"
  let ?t = "\<lparr>now_read = 14, tick = 15, order = [''k'']\<rparr>"
  let ?u = "\<lparr>now_read = 16, tick = 17, order = [''k'']\<rparr>"
  have h: "items ?c ''k'' = Some ?it \<and> 0 <s item.expiration ?it"
    by (simp add: setValue_def newCache_def word_sless_alt)
  have t: "now_read ?t \<le>s tick ?t \<and> tick ?t = item.expiration ?it"
    by simp
  have u: "''k'' \<in> set (order ?u) \<and> item.expiration ?it <s now_read ?u" "now_read ?u \<le>s tick ?u"
    by simp_all
  from expiry_is_strict [of ?c "''k''" ?it ?t 16 ?u] h t u
  show ?thesis by (simp add: Let_def)
qed

subsection \<open>Routing by the split key\<close>

text \<open>
  Claim C5, amended to bytes. In a group whose \<^verbatim>\<open>keyLen\<close> is not negative, the split key
  of a key is its first \<^verbatim>\<open>keyLen\<close> bytes, the whole key when it has no more bytes than
  that. \<^verbatim>\<open>getCache\<close>, \<^verbatim>\<open>GetValue\<close>, \<^verbatim>\<open>SetValue\<close>, \<^verbatim>\<open>addCache\<close> and \<^verbatim>\<open>deleteCache\<close> read
  and write the directory at that split key only. Two keys with the same split key get
  the same cache from \<^verbatim>\<open>getCache\<close>, and after \<^verbatim>\<open>deleteCache\<close> on one of them \<^verbatim>\<open>GetValue\<close>
  finds neither.
\<close>

theorem split_key_routes:
  "0 \<le>s keyLen g \<longrightarrow>
     (let n = nat (sint (keyLen g)); p = take n key in
        getSplitKey g key = Inr p \<and>
        (length key \<le> n \<longrightarrow> p = key) \<and>
        getCache g key = Inr (map_option (Pair p) (caches g p)) \<and>
        GetValue g key now =
          Inr (case caches g p of
                 None \<Rightarrow> ((NilV, False), g)
               | Some c \<Rightarrow> (fst (getValue c key now), g)) \<and>
        SetValue g key v d now =
          Inr (g\<lparr>caches := (caches g)(p \<mapsto>
                 setValue (case caches g p of
                             None \<Rightarrow> newCache defultExpiration defultInterval now
                           | Some c \<Rightarrow> c) key v d now)\<rparr>) \<and>
        addCache g key d i now =
          Inr (if caches g p = None
               then g\<lparr>caches := (caches g)(p \<mapsto> newCache d i now)\<rparr> else g) \<and>
        deleteCache g key =
          Inr (if caches g p = None then (Some (New ''key not exist''), g)
               else (None, g\<lparr>caches := (caches g)(p := None)\<rparr>)) \<and>
        (take n key' = p \<longrightarrow>
           getCache g key' = getCache g key \<and>
           (\<exists>e g'. deleteCache g key = Inr (e, g') \<and>
              GetValue g' key now = Inr ((NilV, False), g') \<and>
              GetValue g' key' now' = Inr ((NilV, False), g'))))"
proof
  assume h: "0 \<le>s keyLen g"
  define n where "n = nat (sint (keyLen g))"
  define p where "p = take n key"
  have sk: "getSplitKey g key = Inr p"
    using h by (simp add: getSplitKey_take n_def p_def)
  have whole: "length key \<le> n \<longrightarrow> p = key" by (simp add: p_def)
  have gc: "getCache g key = Inr (map_option (Pair p) (caches g p))"
    using sk by (rule getCache_split)
  have gv: "GetValue g key now =
      Inr (case caches g p of None \<Rightarrow> ((NilV, False), g)
           | Some c \<Rightarrow> (fst (getValue c key now), g))"
    using sk by (simp add: GetValue_split split: option.splits)
  have sv: "SetValue g key v d now =
      Inr (g\<lparr>caches := (caches g)(p \<mapsto>
             setValue (case caches g p of
                         None \<Rightarrow> newCache defultExpiration defultInterval now
                       | Some c \<Rightarrow> c) key v d now)\<rparr>)"
    using sk by (simp add: SetValue_split)
  have ac: "addCache g key d i now =
      Inr (if caches g p = None
           then g\<lparr>caches := (caches g)(p \<mapsto> newCache d i now)\<rparr> else g)"
    using sk by (rule addCache_split)
  have dc: "deleteCache g key =
      Inr (if caches g p = None then (Some (New ''key not exist''), g)
           else (None, g\<lparr>caches := (caches g)(p := None)\<rparr>))"
    using sk by (rule deleteCache_split)
  have co: "take n key' = p \<longrightarrow>
      getCache g key' = getCache g key \<and>
      (\<exists>e g'. deleteCache g key = Inr (e, g') \<and>
         GetValue g' key now = Inr ((NilV, False), g') \<and>
         GetValue g' key' now' = Inr ((NilV, False), g'))"
  proof
    assume same: "take n key' = p"
    have sk': "getSplitKey g key' = Inr p"
      using h same by (simp add: getSplitKey_take n_def)
    have "getCache g key' = getCache g key"
      using sk' gc by (simp add: getCache_split)
    moreover have "\<exists>e g'. deleteCache g key = Inr (e, g') \<and>
         GetValue g' key now = Inr ((NilV, False), g') \<and>
         GetValue g' key' now' = Inr ((NilV, False), g')"
    proof (cases "caches g p")
      case None
      then show ?thesis
        using dc sk sk' by (simp add: GetValue_split)
    next
      case (Some c)
      let ?g = "g\<lparr>caches := (caches g)(p := None)\<rparr>"
      have "getSplitKey ?g key = Inr p" "getSplitKey ?g key' = Inr p"
        using sk sk' by (simp_all add: getSplitKey_cong [of ?g g])
      then have "GetValue ?g key now = Inr ((NilV, False), ?g)"
        "GetValue ?g key' now' = Inr ((NilV, False), ?g)"
        by (simp_all add: GetValue_split)
      then show ?thesis using dc Some by simp
    qed
    ultimately show "getCache g key' = getCache g key \<and>
      (\<exists>e g'. deleteCache g key = Inr (e, g') \<and>
         GetValue g' key now = Inr ((NilV, False), g') \<and>
         GetValue g' key' now' = Inr ((NilV, False), g'))" ..
  qed
  show "let n = nat (sint (keyLen g)); p = take n key in
        getSplitKey g key = Inr p \<and>
        (length key \<le> n \<longrightarrow> p = key) \<and>
        getCache g key = Inr (map_option (Pair p) (caches g p)) \<and>
        GetValue g key now =
          Inr (case caches g p of
                 None \<Rightarrow> ((NilV, False), g)
               | Some c \<Rightarrow> (fst (getValue c key now), g)) \<and>
        SetValue g key v d now =
          Inr (g\<lparr>caches := (caches g)(p \<mapsto>
                 setValue (case caches g p of
                             None \<Rightarrow> newCache defultExpiration defultInterval now
                           | Some c \<Rightarrow> c) key v d now)\<rparr>) \<and>
        addCache g key d i now =
          Inr (if caches g p = None
               then g\<lparr>caches := (caches g)(p \<mapsto> newCache d i now)\<rparr> else g) \<and>
        deleteCache g key =
          Inr (if caches g p = None then (Some (New ''key not exist''), g)
               else (None, g\<lparr>caches := (caches g)(p := None)\<rparr>)) \<and>
        (take n key' = p \<longrightarrow>
           getCache g key' = getCache g key \<and>
           (\<exists>e g'. deleteCache g key = Inr (e, g') \<and>
              GetValue g' key now = Inr ((NilV, False), g') \<and>
              GetValue g' key' now' = Inr ((NilV, False), g')))"
    unfolding Let_def n_def [symmetric] p_def [symmetric]
    using sk whole gc gv sv ac dc co by (intro conjI)
qed

theorem split_key_routes_witness:
  "(let G = \<lparr>caches = [''abc'' \<mapsto>
                 setValue (setValue (newCache 0 0 0) ''abcX'' (IntV 1) 0 0) ''abcY'' (IntV 2) 0 0],
              expiration = 0, keyLen = 3\<rparr>
    in 0 \<le>s keyLen G \<and>
       getSplitKey G ''abcX'' = Inr ''abc'' \<and>
       take 3 ''abcY'' = ''abc'' \<and>
       getCache G ''abcY'' = getCache G ''abcX'' \<and>
       (\<exists>e g'. deleteCache G ''abcX'' = Inr (e, g') \<and>
          GetValue g' ''abcX'' 5 = Inr ((NilV, False), g') \<and>
          GetValue g' ''abcY'' 7 = Inr ((NilV, False), g')))"
proof -
  let ?G = "\<lparr>caches = [''abc'' \<mapsto>
                 setValue (setValue (newCache 0 0 0) ''abcX'' (IntV 1) 0 0) ''abcY'' (IntV 2) 0 0],
              expiration = 0 :: int64, keyLen = 3 :: int8\<rparr>"
  have h: "0 \<le>s keyLen ?G" by (simp add: word_sle_eq)
  have n: "nat (sint (keyLen ?G)) = 3" by simp
  have p: "take 3 ''abcX'' = ''abc''" "take 3 ''abcY'' = ''abc''" by simp_all
  from split_key_routes [of ?G "''abcX''" 5 "IntV 0" 0 0 "''abcY''" 7] h
  show ?thesis
    unfolding Let_def n p by blast
qed

text \<open>
  The split key is not the first three characters. The key of the three characters
  U+65E5, U+672C, U+8A9E has nine bytes in UTF-8: it has no more than three characters,
  so its first three characters are the whole key, and \<^verbatim>\<open>getSplitKey\<close> of a new group
  returns its first three bytes, the first character alone.
\<close>

theorem split_key_not_characters:
  "spec_first_characters 3
     [CHR 0xE6, CHR 0x97, CHR 0xA5, CHR 0xE6, CHR 0x9C, CHR 0xAC, CHR 0xE8, CHR 0xAA, CHR 0x9E] =
     [CHR 0xE6, CHR 0x97, CHR 0xA5, CHR 0xE6, CHR 0x9C, CHR 0xAC, CHR 0xE8, CHR 0xAA, CHR 0x9E] \<and>
   getSplitKey (NewCacheGroup 0 0)
     [CHR 0xE6, CHR 0x97, CHR 0xA5, CHR 0xE6, CHR 0x9C, CHR 0xAC, CHR 0xE8, CHR 0xAA, CHR 0x9E] =
     Inr [CHR 0xE6, CHR 0x97, CHR 0xA5] \<and>
   getSplitKey (NewCacheGroup 0 0)
     [CHR 0xE6, CHR 0x97, CHR 0xA5, CHR 0xE6, CHR 0x9C, CHR 0xAC, CHR 0xE8, CHR 0xAA, CHR 0x9E] \<noteq>
     Inr (spec_first_characters 3
       [CHR 0xE6, CHR 0x97, CHR 0xA5, CHR 0xE6, CHR 0x9C, CHR 0xAC, CHR 0xE8, CHR 0xAA, CHR 0x9E])"
proof -
  have c: "\<not> continuation (CHR 0xE6)" "\<not> continuation (CHR 0xE8)"
    "continuation (CHR 0x97)" "continuation (CHR 0xA5)" "continuation (CHR 0x9C)"
    "continuation (CHR 0xAC)" "continuation (CHR 0xAA)" "continuation (CHR 0x9E)"
    by (simp_all add: continuation_def)
  have n: "(3 :: nat) = Suc (Suc (Suc 0))" by simp
  have s: "spec_first_characters 3
     [CHR 0xE6, CHR 0x97, CHR 0xA5, CHR 0xE6, CHR 0x9C, CHR 0xAC, CHR 0xE8, CHR 0xAA, CHR 0x9E] =
     [CHR 0xE6, CHR 0x97, CHR 0xA5, CHR 0xE6, CHR 0x9C, CHR 0xAC, CHR 0xE8, CHR 0xAA, CHR 0x9E]"
    unfolding n by (simp add: c)
  have g: "getSplitKey (NewCacheGroup 0 0)
     [CHR 0xE6, CHR 0x97, CHR 0xA5, CHR 0xE6, CHR 0x9C, CHR 0xAC, CHR 0xE8, CHR 0xAA, CHR 0x9E] =
     Inr [CHR 0xE6, CHR 0x97, CHR 0xA5]"
    by (simp add: getSplitKey_def NewCacheGroup_def defultKeyLen_def)
  show ?thesis
    unfolding s g by simp
qed

subsection \<open>The errors of \<^verbatim>\<open>GetString\<close>\<close>

text \<open>
  Claim C6. In a group whose \<^verbatim>\<open>keyLen\<close> is not negative, let \<open>found\<close> be the value that is
  visible under the key at the reading of the clock: the object of the entry, when the
  directory holds a cache under the split key, that cache holds the key and the entry is
  not expired; nothing otherwise. \<^verbatim>\<open>GetValue\<close> returns it with \<open>true\<close>, or \<open>(nil, false)\<close>.
  \<^verbatim>\<open>GetString\<close> returns the stored string and no error when \<open>found\<close> is a string, the
  empty string and the error \<^verbatim>\<open>value not is string\<close> when \<open>found\<close> is a value of another
  type, and the empty string and the error \<^verbatim>\<open>key not found\<close> when nothing is found: each
  of the three results comes in exactly its case, and neither call changes the group.
  After \<^verbatim>\<open>SetValue\<close> of the integer 42 with duration 0, \<^verbatim>\<open>GetString\<close> returns the error
  \<^verbatim>\<open>value not is string\<close>.
\<close>

theorem GetString_errors:
  "0 \<le>s keyLen g \<longrightarrow>
     (let found =
            (case caches g (take (nat (sint (keyLen g))) key) of
               None \<Rightarrow> None
             | Some c \<Rightarrow>
                 (case items c key of
                    None \<Rightarrow> None
                  | Some it \<Rightarrow>
                      if 0 <s item.expiration it \<and> item.expiration it <s now then None
                      else Some (object it)));
          r = (case found of
                 None \<Rightarrow> ([], Some (New ''key not found''))
               | Some v \<Rightarrow>
                   (case v of
                      StringV sv \<Rightarrow> (sv, None)
                    | _ \<Rightarrow> ([], Some (New ''value not is string''))))
      in GetValue g key now =
           Inr ((case found of None \<Rightarrow> (NilV, False) | Some v \<Rightarrow> (v, True)), g) \<and>
         GetString g key now = Inr (r, g) \<and>
         (snd r = Some (New ''key not found'') \<longleftrightarrow> found = None) \<and>
         (snd r = Some (New ''value not is string'') \<longleftrightarrow>
            (\<exists>v. found = Some v \<and> (\<forall>sv. v \<noteq> StringV sv))) \<and>
         (\<forall>sv. r = (sv, None) \<longleftrightarrow> found = Some (StringV sv))) \<and>
     (\<exists>g1. SetValue g key (IntV 42) 0 t = Inr g1 \<and>
        GetString g1 key now = Inr (([], Some (New ''value not is string'')), g1))"
  (is "_ \<longrightarrow> ?results \<and> ?example")
proof
  assume h: "0 \<le>s keyLen g"
  define p where "p = take (nat (sint (keyLen g))) key"
  have sk: "getSplitKey g key = Inr p"
    using h by (simp add: getSplitKey_take p_def)
  define found where "found =
            (case caches g p of
               None \<Rightarrow> None
             | Some c \<Rightarrow>
                 (case items c key of
                    None \<Rightarrow> None
                  | Some it \<Rightarrow>
                      if 0 <s item.expiration it \<and> item.expiration it <s now then None
                      else Some (object it)))"
  define r where "r = (case found of
                 None \<Rightarrow> ([], Some (New ''key not found''))
               | Some v \<Rightarrow>
                   (case v of
                      StringV sv \<Rightarrow> (sv, None)
                    | _ \<Rightarrow> ([], Some (New ''value not is string''))))"
  have gv: "GetValue g key now =
      Inr ((case found of None \<Rightarrow> (NilV, False) | Some v \<Rightarrow> (v, True)), g)"
    using sk by (simp add: GetValue_split found_def getValue_def split: option.splits)
  have gs: "GetString g key now = Inr (r, g)"
    by (simp add: GetString_split gv r_def split: option.splits interface.splits)
  have e1: "snd r = Some (New ''key not found'') \<longleftrightarrow> found = None"
    by (simp add: r_def split: option.splits interface.splits)
  have e2: "snd r = Some (New ''value not is string'') \<longleftrightarrow>
      (\<exists>v. found = Some v \<and> (\<forall>sv. v \<noteq> StringV sv))"
    by (simp add: r_def split: option.splits interface.splits)
  have e3: "\<forall>sv. r = (sv, None) \<longleftrightarrow> found = Some (StringV sv)"
    by (simp add: r_def split: option.splits interface.splits)
  have first: ?results
    unfolding Let_def p_def [symmetric] found_def [symmetric] r_def [symmetric]
    using gv gs e1 e2 e3 by (intro conjI)
  define c0 where "c0 = (case caches g p of
      None \<Rightarrow> newCache defultExpiration defultInterval t | Some c \<Rightarrow> c)"
  define g1 where "g1 = g\<lparr>caches := (caches g)(p \<mapsto> setValue c0 key (IntV 42) 0 t)\<rparr>"
  have sv: "SetValue g key (IntV 42) 0 t = Inr g1"
    using sk by (simp add: SetValue_split g1_def c0_def)
  have "keyLen g1 = keyLen g" by (simp add: g1_def)
  then have sk1: "getSplitKey g1 key = Inr p"
    using sk by (simp add: getSplitKey_cong [of g1 g])
  have "caches g1 p = Some (setValue c0 key (IntV 42) 0 t)"
    by (simp add: g1_def)
  moreover have "fst (getValue (setValue c0 key (IntV 42) 0 t) key now) = (IntV 42, True)"
    by (simp add: getValue_def setValue_def)
  ultimately have "GetValue g1 key now = Inr ((IntV 42, True), g1)"
    using sk1 by (simp add: GetValue_split)
  then have "GetString g1 key now = Inr (([], Some (New ''value not is string'')), g1)"
    by (simp add: GetString_split)
  with sv have second: ?example by (intro exI [of _ g1] conjI)
  from first second show "?results \<and> ?example" ..
qed

theorem GetString_errors_witness:
  "(let c = \<lparr>items = [''abcS'' \<mapsto> \<lparr>object = StringV ''hello'', expiration = 0\<rparr>,
                       ''abcI'' \<mapsto> \<lparr>object = IntV 42, expiration = 0\<rparr>,
                       ''abcE'' \<mapsto> \<lparr>object = StringV ''old'', expiration = 3\<rparr>],
              janitor = \<lparr>interval = 1000000000\<rparr>, expiration = 0\<rparr>;
        G = \<lparr>caches = [''abc'' \<mapsto> c], expiration = 0, keyLen = 3\<rparr>
    in 0 \<le>s keyLen G \<and>
       GetString G ''abcS'' 5 = Inr ((''hello'', None), G) \<and>
       GetString G ''abcI'' 5 = Inr (([], Some (New ''value not is string'')), G) \<and>
       GetString G ''abcE'' 5 = Inr (([], Some (New ''key not found'')), G) \<and>
       GetString G ''abcN'' 5 = Inr (([], Some (New ''key not found'')), G) \<and>
       GetString G ''xyz'' 5 = Inr (([], Some (New ''key not found'')), G))"
proof -
  define c where "c = \<lparr>items = [''abcS'' \<mapsto> \<lparr>object = StringV ''hello'', expiration = 0\<rparr>,
                       ''abcI'' \<mapsto> \<lparr>object = IntV 42, expiration = 0\<rparr>,
                       ''abcE'' \<mapsto> \<lparr>object = StringV ''old'', expiration = 3\<rparr>],
              janitor = \<lparr>interval = 1000000000\<rparr>, expiration = 0 :: int64\<rparr>"
  define G where "G = \<lparr>caches = [''abc'' \<mapsto> c], expiration = 0 :: int64, keyLen = 3 :: int8\<rparr>"
  have h: "0 \<le>s keyLen G" by (simp add: G_def word_sle_eq)
  have n: "nat (sint (keyLen G)) = 3" by (simp add: G_def)
  note inst = GetString_errors [THEN mp, OF h, THEN conjunct1, unfolded Let_def n,
      THEN conjunct2, THEN conjunct1]
  have s: "GetString G ''abcS'' 5 = Inr ((''hello'', None), G)"
    using inst [of "''abcS''" 5] by (simp add: G_def c_def word_sless_alt)
  have i: "GetString G ''abcI'' 5 = Inr (([], Some (New ''value not is string'')), G)"
    using inst [of "''abcI''" 5] by (simp add: G_def c_def word_sless_alt)
  have e: "GetString G ''abcE'' 5 = Inr (([], Some (New ''key not found'')), G)"
    using inst [of "''abcE''" 5] by (simp add: G_def c_def word_sless_alt)
  have m: "GetString G ''abcN'' 5 = Inr (([], Some (New ''key not found'')), G)"
    using inst [of "''abcN''" 5] by (simp add: G_def c_def word_sless_alt)
  have x: "GetString G ''xyz'' 5 = Inr (([], Some (New ''key not found'')), G)"
    using inst [of "''xyz''" 5] by (simp add: G_def c_def word_sless_alt)
  from h s i e m x show ?thesis
    unfolding Let_def c_def [symmetric] G_def [symmetric] by (intro conjI)
qed

subsection \<open>Deleting a shard\<close>

text \<open>
  Claim C7. In a group whose \<^verbatim>\<open>keyLen\<close> is not negative: when the directory holds a cache
  under the split key of the key, \<^verbatim>\<open>deleteCache\<close> removes that entry of the directory,
  with the whole cache, and returns no error, and \<^verbatim>\<open>GetValue\<close> afterwards finds no key
  with that split key; when the directory holds none, \<^verbatim>\<open>deleteCache\<close> returns the error
  \<^verbatim>\<open>key not exist\<close> and the group is as it was.
\<close>

theorem deleteCache_result:
  "0 \<le>s keyLen g \<longrightarrow>
     (let p = take (nat (sint (keyLen g))) key;
          g' = g\<lparr>caches := (caches g)(p := None)\<rparr> in
        (caches g p \<noteq> None \<longrightarrow>
           deleteCache g key = Inr (None, g') \<and>
           (take (nat (sint (keyLen g))) key' = p \<longrightarrow>
              GetValue g' key' now = Inr ((NilV, False), g'))) \<and>
        (caches g p = None \<longrightarrow>
           deleteCache g key = Inr (Some (New ''key not exist''), g)))"
proof
  assume h: "0 \<le>s keyLen g"
  define p where "p = take (nat (sint (keyLen g))) key"
  define g' where "g' = g\<lparr>caches := (caches g)(p := None)\<rparr>"
  have sk: "getSplitKey g key = Inr p"
    using h by (simp add: getSplitKey_take p_def)
  have present: "caches g p \<noteq> None \<longrightarrow> deleteCache g key = Inr (None, g')"
    using sk by (simp add: deleteCache_split g'_def)
  have absent: "caches g p = None \<longrightarrow>
      deleteCache g key = Inr (Some (New ''key not exist''), g)"
    using sk by (simp add: deleteCache_split)
  have gone: "take (nat (sint (keyLen g))) key' = p \<longrightarrow>
      GetValue g' key' now = Inr ((NilV, False), g')"
  proof
    assume "take (nat (sint (keyLen g))) key' = p"
    then have "getSplitKey g key' = Inr p"
      using h by (simp add: getSplitKey_take)
    moreover have "keyLen g' = keyLen g" by (simp add: g'_def)
    ultimately have "getSplitKey g' key' = Inr p"
      by (simp add: getSplitKey_cong [of g' g])
    then show "GetValue g' key' now = Inr ((NilV, False), g')"
      by (simp add: GetValue_split g'_def)
  qed
  from present absent gone
  show "let p = take (nat (sint (keyLen g))) key;
          g' = g\<lparr>caches := (caches g)(p := None)\<rparr> in
        (caches g p \<noteq> None \<longrightarrow>
           deleteCache g key = Inr (None, g') \<and>
           (take (nat (sint (keyLen g))) key' = p \<longrightarrow>
              GetValue g' key' now = Inr ((NilV, False), g'))) \<and>
        (caches g p = None \<longrightarrow>
           deleteCache g key = Inr (Some (New ''key not exist''), g))"
    unfolding Let_def p_def [symmetric] g'_def [symmetric] by blast
qed

theorem deleteCache_result_witness:
  "(let G = \<lparr>caches = [''abc'' \<mapsto> setValue (newCache 0 0 0) ''abcX'' (IntV 42) 0 0],
              expiration = 0, keyLen = 3\<rparr>;
        E = \<lparr>caches = Map.empty, expiration = 0, keyLen = 3\<rparr>
    in 0 \<le>s keyLen G \<and> caches G ''abc'' \<noteq> None \<and> take 3 ''abcY'' = ''abc'' \<and>
       deleteCache G ''abcY'' = Inr (None, E) \<and>
       GetValue E ''abcX'' 9 = Inr ((NilV, False), E) \<and>
       0 \<le>s keyLen E \<and> caches E ''abc'' = None \<and>
       deleteCache E ''abcY'' = Inr (Some (New ''key not exist''), E))"
proof -
  let ?G = "\<lparr>caches = [''abc'' \<mapsto> setValue (newCache 0 0 0) ''abcX'' (IntV 42) 0 0],
              expiration = 0 :: int64, keyLen = 3 :: int8\<rparr>"
  let ?E = "\<lparr>caches = Map.empty, expiration = 0 :: int64, keyLen = 3 :: int8\<rparr>"
  have h: "0 \<le>s keyLen ?G" "0 \<le>s keyLen ?E" by (simp_all add: word_sle_eq)
  have n: "nat (sint (keyLen ?G)) = 3" "nat (sint (keyLen ?E)) = 3" by simp_all
  have p: "take 3 ''abcY'' = ''abc''" "take 3 ''abcX'' = ''abc''" by simp_all
  have e: "?G\<lparr>caches := (caches ?G)(''abc'' := None)\<rparr> = ?E" by simp
  have c: "caches ?G ''abc'' \<noteq> None" "caches ?E ''abc'' = None" by simp_all
  from deleteCache_result [of ?G "''abcY''" "''abcX''" 9] h(1) c(1)
  have 1: "deleteCache ?G ''abcY'' = Inr (None, ?E) \<and>
      GetValue ?E ''abcX'' 9 = Inr ((NilV, False), ?E)"
    unfolding Let_def n p e by blast
  from deleteCache_result [of ?E "''abcY''" "''abcX''" 9] h(2) c(2)
  have 2: "deleteCache ?E ''abcY'' = Inr (Some (New ''key not exist''), ?E)"
    unfolding Let_def n p by blast
  from 1 2 h c p show ?thesis unfolding Let_def by blast
qed

subsection \<open>Creating a shard\<close>

text \<open>
  Claim C8. In a group whose \<^verbatim>\<open>keyLen\<close> is not negative and whose directory holds no cache
  under the split key of the key: \<^verbatim>\<open>GetValue\<close> returns \<open>(nil, false)\<close>, \<^verbatim>\<open>GetString\<close> and
  \<^verbatim>\<open>deleteCache\<close> return their errors, and all three leave the group, with its directory,
  as it was. \<^verbatim>\<open>addDefultCache\<close> makes a cache with the default expiration 0 and the default
  interval of one second, stores it in the directory under the split key and returns it.
  \<^verbatim>\<open>SetValue\<close> ends in the group that holds this new cache under the split key, with the
  entry stored in it.
\<close>

theorem only_SetValue_creates:
  "0 \<le>s keyLen g \<and> caches g (take (nat (sint (keyLen g))) key) = None \<longrightarrow>
     GetValue g key now = Inr ((NilV, False), g) \<and>
     GetString g key now = Inr (([], Some (New ''key not found'')), g) \<and>
     deleteCache g key = Inr (Some (New ''key not exist''), g) \<and>
     addDefultCache g key now =
       Inr ((take (nat (sint (keyLen g))) key, newCache defultExpiration defultInterval now),
            g\<lparr>caches := (caches g)(take (nat (sint (keyLen g))) key \<mapsto>
              newCache defultExpiration defultInterval now)\<rparr>) \<and>
     SetValue g key v d now =
       Inr (g\<lparr>caches := (caches g)(take (nat (sint (keyLen g))) key \<mapsto>
              setValue (newCache defultExpiration defultInterval now) key v d now)\<rparr>) \<and>
     newCache defultExpiration defultInterval now =
       \<lparr>items = Map.empty, janitor = \<lparr>interval = 1000000000\<rparr>, expiration = 0\<rparr>"
proof (intro impI conjI)
  assume h: "0 \<le>s keyLen g \<and> caches g (take (nat (sint (keyLen g))) key) = None"
  define p where "p = take (nat (sint (keyLen g))) key"
  have sk: "getSplitKey g key = Inr p"
    using h by (simp add: getSplitKey_take p_def)
  have none: "caches g p = None" using h by (simp add: p_def)
  show gv: "GetValue g key now = Inr ((NilV, False), g)"
    using sk none by (simp add: GetValue_split)
  show "GetString g key now = Inr (([], Some (New ''key not found'')), g)"
    using gv by (simp add: GetString_split)
  show "deleteCache g key = Inr (Some (New ''key not exist''), g)"
    using sk none by (simp add: deleteCache_split)
  let ?c = "newCache defultExpiration defultInterval now"
  let ?g = "g\<lparr>caches := (caches g)(p \<mapsto> ?c)\<rparr>"
  show ad: "addDefultCache g key now =
       Inr ((take (nat (sint (keyLen g))) key, newCache defultExpiration defultInterval now),
            g\<lparr>caches := (caches g)(take (nat (sint (keyLen g))) key \<mapsto>
              newCache defultExpiration defultInterval now)\<rparr>)"
    unfolding p_def [symmetric]
    using sk none by (simp add: addDefultCache_def Let_def)
  have gc: "getCache g key = Inr None"
    using sk none by (simp add: getCache_split)
  have held: "caches ?g p = Some ?c" by simp
  have "SetValue g key v d now = Inr (through ?g p (setValue ?c key v d now))"
    using gc ad [unfolded p_def [symmetric]] by (simp add: SetValue_def)
  also have "through ?g p (setValue ?c key v d now) =
      ?g\<lparr>caches := (caches ?g)(p \<mapsto> setValue ?c key v d now)\<rparr>"
    using held by (rule through_held)
  also have "\<dots> = g\<lparr>caches := (caches g)(p \<mapsto> setValue ?c key v d now)\<rparr>"
    by simp
  finally show "SetValue g key v d now =
       Inr (g\<lparr>caches := (caches g)(take (nat (sint (keyLen g))) key \<mapsto>
              setValue (newCache defultExpiration defultInterval now) key v d now)\<rparr>)"
    unfolding p_def [symmetric] .
  show "newCache defultExpiration defultInterval now =
       \<lparr>items = Map.empty, janitor = \<lparr>interval = 1000000000\<rparr>, expiration = 0\<rparr>"
    by (simp add: newCache_def newJanitor_def defultExpiration_def defultInterval_def
        word_sle_eq)
qed

theorem only_SetValue_creates_witness:
  "(let E = NewCacheGroup 0 0;
        c = \<lparr>items = Map.empty, janitor = \<lparr>interval = 1000000000\<rparr>, expiration = 0\<rparr>
    in 0 \<le>s keyLen E \<and> caches E (take (nat (sint (keyLen E))) ''abcX'') = None \<and>
       GetValue E ''abcX'' 7 = Inr ((NilV, False), E) \<and>
       addDefultCache E ''abcX'' 7 = Inr ((''abc'', c), E\<lparr>caches := [''abc'' \<mapsto> c]\<rparr>) \<and>
       SetValue E ''abcX'' (IntV 1) 0 7 =
         Inr (E\<lparr>caches := [''abc'' \<mapsto>
                c\<lparr>items := [''abcX'' \<mapsto> \<lparr>object = IntV 1, expiration = 0\<rparr>]\<rparr>]\<rparr>))"
proof -
  define E where "E = NewCacheGroup 0 0"
  define c where
    "c = \<lparr>items = Map.empty, janitor = \<lparr>interval = 1000000000\<rparr>, expiration = 0 :: int64\<rparr>"
  have h: "0 \<le>s keyLen E \<and> caches E (take (nat (sint (keyLen E))) ''abcX'') = None"
    by (simp add: E_def NewCacheGroup_def defultKeyLen_def word_sle_eq)
  have p: "take (nat (sint (keyLen E))) ''abcX'' = ''abc''"
    by (simp add: E_def NewCacheGroup_def defultKeyLen_def)
  have e: "caches E = Map.empty" by (simp add: E_def NewCacheGroup_def)
  note inst = only_SetValue_creates [of E "''abcX''" 7 "IntV 1" 0, THEN mp, OF h]
  have nc: "newCache defultExpiration defultInterval 7 = c"
    using inst unfolding c_def by (elim conjE)
  have gv: "GetValue E ''abcX'' 7 = Inr ((NilV, False), E)"
    using inst by (elim conjE)
  have ad: "addDefultCache E ''abcX'' 7 = Inr ((''abc'', c), E\<lparr>caches := [''abc'' \<mapsto> c]\<rparr>)"
    using inst [THEN conjunct2, THEN conjunct2, THEN conjunct2, THEN conjunct1]
    unfolding p nc e .
  have sv: "SetValue E ''abcX'' (IntV 1) 0 7 =
         Inr (E\<lparr>caches := [''abc'' \<mapsto>
                c\<lparr>items := [''abcX'' \<mapsto> \<lparr>object = IntV 1, expiration = 0\<rparr>]\<rparr>]\<rparr>)"
    using inst [THEN conjunct2, THEN conjunct2, THEN conjunct2, THEN conjunct2, THEN conjunct1]
    unfolding p nc e by (simp add: setValue_def c_def)
  from h gv ad sv show ?thesis
    unfolding Let_def E_def [symmetric] c_def [symmetric] by (intro conjI) simp_all
qed

subsection \<open>Runs\<close>

lemmas addCache_take = addCache_split [OF getSplitKey_take]
lemmas SetValue_take = SetValue_split [OF getSplitKey_take]
lemmas deleteCache_take = deleteCache_split [OF getSplitKey_take]

lemma GetValue_take:
  "0 \<le>s keyLen g \<Longrightarrow>
   GetValue g key now =
     Inr (case caches g (take (nat (sint (keyLen g))) key) of
            None \<Rightarrow> (NilV, False)
          | Some c \<Rightarrow> fst (getValue c key now), g)"
  by (simp add: GetValue_split getSplitKey_take split: option.splits)

lemma step_total:
  assumes "0 \<le>s keyLen g"
  shows "\<exists>r g'. step g c = Inr (r, g') \<and> keyLen g' = keyLen g"
proof (cases c)
  case (CallAddCache key d i now)
  then show ?thesis using assms by (simp add: step_def addCache_take)
next
  case (CallGetValue key now)
  then show ?thesis using assms by (simp add: step_def GetValue_take split: prod.splits)
next
  case (CallGetString key now)
  then show ?thesis using assms
    by (simp add: step_def GetString_split GetValue_take split: prod.splits)
next
  case (CallSetValue key v d now)
  then show ?thesis using assms by (simp add: step_def SetValue_take through_def)
next
  case (CallDeleteCache key)
  then show ?thesis using assms by (simp add: step_def deleteCache_take)
next
  case (JanitorTurn k t)
  then show ?thesis by (simp add: step_def through_def split: option.splits)
qed

lemma exec_total:
  "0 \<le>s keyLen g \<Longrightarrow> \<exists>rs g'. exec g cs = Inr (rs, g') \<and> keyLen g' = keyLen g"
proof (induction cs arbitrary: g)
  case Nil
  then show ?case by simp
next
  case (Cons c cs)
  from step_total [OF Cons.prems, of c]
  obtain r g1 where 1: "step g c = Inr (r, g1)" "keyLen g1 = keyLen g" by blast
  with Cons.prems have "0 \<le>s keyLen g1" by simp
  from Cons.IH [OF this]
  obtain rs g2 where 2: "exec g1 cs = Inr (rs, g2)" "keyLen g2 = keyLen g1" by blast
  from 1 2 show ?case by simp
qed

lemma step_keeps_entry:
  assumes k: "0 \<le>s keyLen g"
    and c: "caches g (take (nat (sint (keyLen g))) key) = Some c"
    and i: "items c key = Some \<lparr>object = v, expiration = 0\<rparr>"
    and g0: "keyLen g0 = keyLen g"
    and t: "\<not> touches g0 key a"
  shows "\<exists>r g' c'. step g a = Inr (r, g') \<and> keyLen g' = keyLen g \<and>
    caches g' (take (nat (sint (keyLen g))) key) = Some c' \<and>
    items c' key = Some \<lparr>object = v, expiration = 0\<rparr>"
proof (cases a)
  case (CallAddCache key' d iv now)
  then show ?thesis using k c i by (auto simp: step_def addCache_take)
next
  case (CallGetValue key' now)
  then show ?thesis using k c i by (simp add: step_def GetValue_take split: prod.splits)
next
  case (CallGetString key' now)
  then show ?thesis using k c i
    by (simp add: step_def GetString_split GetValue_take split: prod.splits)
next
  case (CallSetValue key' v' d now)
  with t have "key' \<noteq> key" by simp
  then show ?thesis using CallSetValue k c i
    by (auto simp: step_def SetValue_take through_def setValue_def)
next
  case (CallDeleteCache key')
  have "0 \<le>s keyLen g0" using k g0 by simp
  with t CallDeleteCache g0
  have "take (nat (sint (keyLen g))) key' \<noteq> take (nat (sint (keyLen g))) key"
    by (simp add: getSplitKey_take)
  then show ?thesis using CallDeleteCache k c i
    by (auto simp: step_def deleteCache_take)
next
  case (JanitorTurn q u)
  have "items (sweep c u) key = Some \<lparr>object = v, expiration = 0\<rparr>"
    using i by (simp add: sweep_items)
  then show ?thesis using JanitorTurn c i
    by (auto simp: step_def through_def split: option.splits)
qed

lemma exec_keeps_entry:
  assumes "0 \<le>s keyLen g"
    and "caches g (take (nat (sint (keyLen g))) key) = Some c"
    and "items c key = Some \<lparr>object = v, expiration = 0\<rparr>"
    and "keyLen g0 = keyLen g"
    and "list_all (\<lambda>a. \<not> touches g0 key a) cs"
  shows "\<exists>rs g' c'. exec g cs = Inr (rs, g') \<and> keyLen g' = keyLen g \<and>
    caches g' (take (nat (sint (keyLen g))) key) = Some c' \<and>
    items c' key = Some \<lparr>object = v, expiration = 0\<rparr>"
  using assms
proof (induction cs arbitrary: g c)
  case Nil
  then show ?case by simp
next
  case (Cons a cs)
  from Cons.prems have "\<not> touches g0 key a" by simp
  from step_keeps_entry [OF Cons.prems(1-4) this]
  obtain r g1 c1 where 1: "step g a = Inr (r, g1)" "keyLen g1 = keyLen g"
    "caches g1 (take (nat (sint (keyLen g))) key) = Some c1"
    "items c1 key = Some \<lparr>object = v, expiration = 0\<rparr>"
    by blast
  have "\<exists>rs g' c'. exec g1 cs = Inr (rs, g') \<and> keyLen g' = keyLen g1 \<and>
    caches g' (take (nat (sint (keyLen g1))) key) = Some c' \<and>
    items c' key = Some \<lparr>object = v, expiration = 0\<rparr>"
    using Cons.prems 1 by (intro Cons.IH [of g1 c1]) simp_all
  then obtain rs g2 c2 where 2: "exec g1 cs = Inr (rs, g2)" "keyLen g2 = keyLen g1"
    "caches g2 (take (nat (sint (keyLen g1))) key) = Some c2"
    "items c2 key = Some \<lparr>object = v, expiration = 0\<rparr>"
    by blast
  from 1 2 show ?case by simp
qed

subsection \<open>Entries without expiration\<close>

text \<open>
  Claim C3. In a group whose \<^verbatim>\<open>keyLen\<close> is not negative, \<^verbatim>\<open>SetValue\<close> with a duration that
  is not positive stores the value with expiration 0. After any run of calls and janitor
  turns, at any clock readings, in which no call stores under the same key and no call
  deletes the cache that the key is routed to, \<^verbatim>\<open>GetValue\<close> returns the value with \<open>true\<close>
  at every reading of the clock.
\<close>

theorem no_expiration_stays:
  "0 \<le>s keyLen g \<and> ttl \<le>s 0 \<and> list_all (\<lambda>a. \<not> touches g key a) cs \<longrightarrow>
     (\<exists>g1 c1 rs g2.
        SetValue g key v ttl now = Inr g1 \<and>
        caches g1 (take (nat (sint (keyLen g))) key) = Some c1 \<and>
        items c1 key = Some \<lparr>object = v, expiration = 0\<rparr> \<and>
        exec g1 cs = Inr (rs, g2) \<and>
        GetValue g2 key now' = Inr ((v, True), g2))"
proof
  assume h: "0 \<le>s keyLen g \<and> ttl \<le>s 0 \<and> list_all (\<lambda>a. \<not> touches g key a) cs"
  define p where "p = take (nat (sint (keyLen g))) key"
  define c0 where "c0 = (case caches g p of
      None \<Rightarrow> newCache defultExpiration defultInterval now | Some c \<Rightarrow> c)"
  define c1 where "c1 = setValue c0 key v ttl now"
  define g1 where "g1 = g\<lparr>caches := (caches g)(p \<mapsto> c1)\<rparr>"
  have sv: "SetValue g key v ttl now = Inr g1"
    using h by (simp add: SetValue_take g1_def c1_def c0_def p_def)
  have kl: "keyLen g1 = keyLen g" by (simp add: g1_def)
  have k1: "0 \<le>s keyLen g1" using h kl by simp
  have cc: "caches g1 (take (nat (sint (keyLen g1))) key) = Some c1"
    by (simp add: kl) (simp add: g1_def p_def)
  have "\<not> 0 <s ttl" using h by (simp add: word_sle_eq word_sless_alt)
  then have it: "items c1 key = Some \<lparr>object = v, expiration = 0\<rparr>"
    by (simp add: c1_def setValue_def)
  from exec_keeps_entry [OF k1 cc it, of g cs] h kl
  obtain rs g2 c2 where 2: "exec g1 cs = Inr (rs, g2)" "keyLen g2 = keyLen g1"
    "caches g2 (take (nat (sint (keyLen g1))) key) = Some c2"
    "items c2 key = Some \<lparr>object = v, expiration = 0\<rparr>"
    by auto
  have "0 \<le>s keyLen g2" using k1 2 by simp
  moreover have "fst (getValue c2 key now') = (v, True)"
    using 2 by (simp add: getValue_def)
  ultimately have gv: "GetValue g2 key now' = Inr ((v, True), g2)"
    using 2 by (simp add: GetValue_take)
  from cc have cc': "caches g1 (take (nat (sint (keyLen g))) key) = Some c1"
    by (simp add: kl)
  from sv cc' it 2(1) gv
  show "\<exists>g1 c1 rs g2.
        SetValue g key v ttl now = Inr g1 \<and>
        caches g1 (take (nat (sint (keyLen g))) key) = Some c1 \<and>
        items c1 key = Some \<lparr>object = v, expiration = 0\<rparr> \<and>
        exec g1 cs = Inr (rs, g2) \<and>
        GetValue g2 key now' = Inr ((v, True), g2)"
    by (intro exI conjI)
qed

theorem no_expiration_stays_witness:
  "(let E = NewCacheGroup 0 0;
        cs = [JanitorTurn ''abc''
                \<lparr>now_read = 9000000000000000000, tick = 9000000001000000000,
                 order = [''abcX'']\<rparr>,
              CallSetValue ''abcY'' (IntV 2) 10 6,
              CallDeleteCache ''zzz'',
              CallGetValue ''abcX'' 7]
    in 0 \<le>s keyLen E \<and> (0 :: int64) \<le>s 0 \<and>
       list_all (\<lambda>a. \<not> touches E ''abcX'' a) cs \<and>
       (\<exists>g1 rs g2.
          SetValue E ''abcX'' (IntV 1) 0 5 = Inr g1 \<and>
          exec g1 cs = Inr (rs, g2) \<and>
          GetValue g2 ''abcX'' 9100000000000000000 = Inr ((IntV 1, True), g2)))"
proof -
  define E where "E = NewCacheGroup 0 0"
  define cs where "cs = [JanitorTurn ''abc''
                \<lparr>now_read = 9000000000000000000, tick = 9000000001000000000,
                 order = [''abcX'']\<rparr>,
              CallSetValue ''abcY'' (IntV 2) 10 6,
              CallDeleteCache ''zzz'',
              CallGetValue ''abcX'' 7]"
  have h1: "0 \<le>s keyLen E"
    by (simp add: E_def NewCacheGroup_def defultKeyLen_def word_sle_eq)
  have h2: "(0 :: int64) \<le>s 0" by simp
  have h3: "list_all (\<lambda>a. \<not> touches E ''abcX'' a) cs"
    by (simp add: cs_def E_def NewCacheGroup_def defultKeyLen_def getSplitKey_def)
  from h1 h2 h3
  have h: "0 \<le>s keyLen E \<and> (0 :: int64) \<le>s 0 \<and> list_all (\<lambda>a. \<not> touches E ''abcX'' a) cs"
    by (intro conjI)
  from no_expiration_stays [of E 0 "''abcX''" cs "IntV 1" 5 9100000000000000000, THEN mp, OF h]
  obtain g1 c1 rs g2 where
    "SetValue E ''abcX'' (IntV 1) 0 5 = Inr g1"
    "exec g1 cs = Inr (rs, g2)"
    "GetValue g2 ''abcX'' 9100000000000000000 = Inr ((IntV 1, True), g2)"
    by (elim exE conjE)
  then have "\<exists>g1 rs g2.
          SetValue E ''abcX'' (IntV 1) 0 5 = Inr g1 \<and>
          exec g1 cs = Inr (rs, g2) \<and>
          GetValue g2 ''abcX'' 9100000000000000000 = Inr ((IntV 1, True), g2)"
    by (intro exI conjI)
  with h1 h2 h3 show ?thesis
    unfolding Let_def E_def [symmetric] cs_def [symmetric] by (intro conjI)
qed

subsection \<open>The expiration fields are not read\<close>

lemma erase_group_simps:
  "keyLen (erase_group g) = keyLen g"
  "caches (erase_group g) k = map_option erase_cache (caches g k)"
  "getSplitKey (erase_group g) key = getSplitKey g key"
  by (simp_all add: erase_group_def getSplitKey_def)

lemma erase_cache_simps:
  "items (erase_cache c) = items c"
  "fst (getValue (erase_cache c) key now) = fst (getValue c key now)"
  "setValue (erase_cache c) key v d now = erase_cache (setValue c key v d now)"
  "sweep (erase_cache c) t = erase_cache (sweep c t)"
  "erase_cache (newCache d i now) = newCache 0 i now"
  by (simp_all add: erase_cache_def getValue_def setValue_def sweep_def newCache_def Let_def
      split: option.splits)

lemma put_erase:
  "(erase_group g)\<lparr>caches := (caches (erase_group g))(k \<mapsto> erase_cache c)\<rparr> =
     erase_group (g\<lparr>caches := (caches g)(k \<mapsto> c)\<rparr>)"
  by (simp add: erase_group_def fun_eq_iff)

lemma through_erase:
  "through (erase_group g) k (erase_cache c) = erase_group (through g k c)"
proof (cases "caches g k")
  case None
  then show ?thesis by (simp add: through_def erase_group_simps)
next
  case (Some c')
  then show ?thesis by (simp add: through_def erase_group_simps put_erase)
qed

lemma addCache_erase:
  "addCache (erase_group g) key 0 i now = map_sum id erase_group (addCache g key d i now)"
proof (cases "getSplitKey g key")
  case (Inl p)
  then show ?thesis by (simp add: addCache_def erase_group_simps)
next
  case (Inr k)
  have "(erase_group g)\<lparr>caches := (caches (erase_group g))(k \<mapsto> newCache 0 i now)\<rparr> =
      erase_group (g\<lparr>caches := (caches g)(k \<mapsto> newCache d i now)\<rparr>)"
    using put_erase [of g k "newCache d i now"]
    by (simp add: erase_cache_simps)
  with Inr show ?thesis
    by (simp add: addCache_def erase_group_simps split: option.splits)
qed

lemma GetValue_erase:
  "GetValue (erase_group g) key now =
     map_sum id (map_prod id erase_group) (GetValue g key now)"
  by (simp add: GetValue_split erase_group_simps erase_cache_simps
      split: sum.splits option.splits)

lemma GetString_erase:
  "GetString (erase_group g) key now =
     map_sum id (map_prod id erase_group) (GetString g key now)"
  by (simp add: GetString_split GetValue_erase split: sum.splits prod.splits)

lemma SetValue_erase:
  "SetValue (erase_group g) key v d now = map_sum id erase_group (SetValue g key v d now)"
proof (cases "getSplitKey g key")
  case (Inl p)
  then show ?thesis by (simp add: SetValue_def getCache_def erase_group_simps)
next
  case (Inr k)
  then have "getSplitKey (erase_group g) key = Inr k" by (simp add: erase_group_simps)
  note l = SetValue_split [OF this, of v d now] and r = SetValue_split [OF Inr, of v d now]
  show ?thesis
  proof (cases "caches g k")
    case None
    let ?c = "newCache defultExpiration defultInterval now"
    have "erase_cache ?c = ?c"
      by (simp add: erase_cache_simps defultExpiration_def)
    then have "setValue ?c key v d now = erase_cache (setValue ?c key v d now)"
      by (simp add: erase_cache_simps(3) [symmetric])
    then have "(erase_group g)\<lparr>caches := (caches (erase_group g))(k \<mapsto>
          setValue ?c key v d now)\<rparr> =
        erase_group (g\<lparr>caches := (caches g)(k \<mapsto> setValue ?c key v d now)\<rparr>)"
      using put_erase [of g k "setValue ?c key v d now"] by simp
    with None show ?thesis by (simp add: l r erase_group_simps)
  next
    case (Some c)
    have "(erase_group g)\<lparr>caches := (caches (erase_group g))(k \<mapsto>
          setValue (erase_cache c) key v d now)\<rparr> =
        erase_group (g\<lparr>caches := (caches g)(k \<mapsto> setValue c key v d now)\<rparr>)"
      using put_erase [of g k "setValue c key v d now"]
      by (simp add: erase_cache_simps)
    with Some show ?thesis by (simp add: l r erase_group_simps)
  qed
qed

lemma deleteCache_erase:
  "deleteCache (erase_group g) key =
     map_sum id (map_prod id erase_group) (deleteCache g key)"
proof (cases "getSplitKey g key")
  case (Inl p)
  then show ?thesis by (simp add: deleteCache_def erase_group_simps)
next
  case (Inr k)
  have "(erase_group g)\<lparr>caches := (caches (erase_group g))(k := None)\<rparr> =
      erase_group (g\<lparr>caches := (caches g)(k := None)\<rparr>)"
    by (simp add: erase_group_def fun_eq_iff)
  with Inr show ?thesis
    by (simp add: deleteCache_def erase_group_simps split: option.splits)
qed

lemma step_erase:
  "step (erase_group g) (erase_call a) = map_sum id (map_prod id erase_group) (step g a)"
proof (cases a)
  case (CallAddCache key d i now)
  then show ?thesis
    by (simp add: step_def addCache_erase [of g key i now d] split: sum.splits)
next
  case (CallGetValue key now)
  then show ?thesis
    by (simp add: step_def GetValue_erase split: sum.splits prod.splits)
next
  case (CallGetString key now)
  then show ?thesis
    by (simp add: step_def GetString_erase split: sum.splits prod.splits)
next
  case (CallSetValue key v d now)
  then show ?thesis
    by (simp add: step_def SetValue_erase split: sum.splits)
next
  case (CallDeleteCache key)
  then show ?thesis
    by (simp add: step_def deleteCache_erase split: sum.splits prod.splits)
next
  case (JanitorTurn k t)
  then show ?thesis
    by (simp add: step_def erase_group_simps erase_cache_simps through_erase [symmetric]
        split: option.splits)
qed

lemma exec_erase:
  "exec (erase_group g) (map erase_call cs) =
     map_sum id (map_prod id erase_group) (exec g cs)"
proof (induction cs arbitrary: g)
  case Nil
  then show ?case by simp
next
  case (Cons a cs)
  show ?case
  proof (cases "step g a")
    case (Inl p)
    then show ?thesis using step_erase [of g a] by simp
  next
    case (Inr x)
    obtain r g1 where x: "x = (r, g1)" by (cases x)
    with Inr have "step (erase_group g) (erase_call a) = Inr (r, erase_group g1)"
      using step_erase [of g a] by simp
    with Inr x Cons.IH [of g1] show ?thesis
      by (simp split: sum.splits)
  qed
qed

text \<open>
  Claim C9. Take two runs from groups made by \<^verbatim>\<open>NewCacheGroup\<close> with the expirations \<open>d1\<close>
  and \<open>d2\<close>. When the two sequences of calls are the same but for the expiration arguments
  given to \<^verbatim>\<open>addCache\<close>, both runs end, without a panic, and every call of the first run
  has the reply of the same call in the second; the groups they end in differ in their
  \<^verbatim>\<open>expiration\<close> fields at most.
\<close>

theorem expiration_is_not_read:
  "map erase_call cs1 = map erase_call cs2 \<longrightarrow>
     (\<exists>rs g1 g2.
        exec (NewCacheGroup d1 now) cs1 = Inr (rs, g1) \<and>
        exec (NewCacheGroup d2 now) cs2 = Inr (rs, g2) \<and>
        erase_group g1 = erase_group g2)"
proof
  assume same: "map erase_call cs1 = map erase_call cs2"
  let ?E1 = "NewCacheGroup d1 now" and ?E2 = "NewCacheGroup d2 now"
  have k: "0 \<le>s keyLen ?E1" "0 \<le>s keyLen ?E2"
    by (simp_all add: NewCacheGroup_def defultKeyLen_def word_sle_eq)
  have e: "erase_group ?E1 = erase_group ?E2"
    by (simp add: erase_group_def NewCacheGroup_def)
  from exec_total [OF k(1), of cs1]
  obtain rs1 g1 where 1: "exec ?E1 cs1 = Inr (rs1, g1)" by blast
  from exec_total [OF k(2), of cs2]
  obtain rs2 g2 where 2: "exec ?E2 cs2 = Inr (rs2, g2)" by blast
  have "exec (erase_group ?E1) (map erase_call cs1) = Inr (rs1, erase_group g1)"
    by (simp add: exec_erase 1)
  moreover have "exec (erase_group ?E2) (map erase_call cs2) = Inr (rs2, erase_group g2)"
    by (simp add: exec_erase 2)
  ultimately have "rs1 = rs2" "erase_group g1 = erase_group g2"
    using same e by simp_all
  with 1 2 show "\<exists>rs g1 g2.
        exec (NewCacheGroup d1 now) cs1 = Inr (rs, g1) \<and>
        exec (NewCacheGroup d2 now) cs2 = Inr (rs, g2) \<and>
        erase_group g1 = erase_group g2"
    by blast
qed

theorem expiration_is_not_read_witness:
  "(let cs1 = [CallAddCache ''abc'' 5 0 1, CallSetValue ''abcX'' (StringV ''v'') 10 2,
               CallGetString ''abcX'' 3, CallGetValue ''abcX'' 13,
               CallDeleteCache ''abc'', CallGetValue ''abcX'' 14];
        cs2 = [CallAddCache ''abc'' 70 0 1, CallSetValue ''abcX'' (StringV ''v'') 10 2,
               CallGetString ''abcX'' 3, CallGetValue ''abcX'' 13,
               CallDeleteCache ''abc'', CallGetValue ''abcX'' 14];
        rs = [Done, Done, Str ''v'' None, Value NilV False, Err None, Value NilV False]
    in map erase_call cs1 = map erase_call cs2 \<and>
       map_sum id fst (exec (NewCacheGroup 0 100) cs1) = Inr rs \<and>
       map_sum id fst (exec (NewCacheGroup 1000 100) cs2) = Inr rs)"
proof -
  define cs1 where "cs1 = [CallAddCache ''abc'' 5 0 1, CallSetValue ''abcX'' (StringV ''v'') 10 2,
               CallGetString ''abcX'' 3, CallGetValue ''abcX'' 13,
               CallDeleteCache ''abc'', CallGetValue ''abcX'' 14]"
  define cs2 where "cs2 = [CallAddCache ''abc'' 70 0 1, CallSetValue ''abcX'' (StringV ''v'') 10 2,
               CallGetString ''abcX'' 3, CallGetValue ''abcX'' 13,
               CallDeleteCache ''abc'', CallGetValue ''abcX'' 14]"
  define rs where
    "rs = [Done, Done, Str ''v'' None, Value NilV False, Err None, Value NilV False]"
  have same: "map erase_call cs1 = map erase_call cs2"
    by (simp add: cs1_def cs2_def)
  have k: "0 \<le>s keyLen (NewCacheGroup 0 100)"
    by (simp add: NewCacheGroup_def defultKeyLen_def word_sle_eq)
  have p: "take 3 ''abcX'' = ''abc''" "take 3 ''abc'' = ''abc''" by simp_all
  have 1: "map_sum id fst (exec (NewCacheGroup 0 100) cs1) = Inr rs"
    unfolding cs1_def rs_def
    by (simp add: step_def addCache_take SetValue_take GetValue_take GetString_split
        deleteCache_take through_def NewCacheGroup_def defultKeyLen_def word_sle_eq
        word_sless_alt p setValue_def getValue_def newCache_def)
  from expiration_is_not_read [of cs1 cs2 0 100 1000, THEN mp, OF same]
  obtain rs' g1 g2 where
    a: "exec (NewCacheGroup 0 100) cs1 = Inr (rs', g1)" and
    b: "exec (NewCacheGroup 1000 100) cs2 = Inr (rs', g2)"
    by (elim exE conjE)
  from a 1 have "rs' = rs" by simp
  with b have 2: "map_sum id fst (exec (NewCacheGroup 1000 100) cs2) = Inr rs" by simp
  from same 1 2 show ?thesis
    unfolding Let_def cs1_def [symmetric] cs2_def [symmetric] rs_def [symmetric]
    by (intro conjI)
qed

end
